theory Spec2Isabelle
  imports Main
begin

section \<open>JavaScript values and the action context\<close>

text \<open>
  The bridge of \<^verbatim>\<open>src/index.js\<close> branches on JavaScript truthiness (\<^verbatim>\<open>if(err)\<close>,
  \<^verbatim>\<open>ctx.reject\<close>, \<^verbatim>\<open>a || b\<close>) and on one strict comparison (\<^verbatim>\<open>ctx.authorized === false\<close>).
  Values are therefore kept as a small datatype of JavaScript values; objects (errors, option
  maps, buffers) are opaque references, which are always truthy.
\<close>

datatype jsval = Undefined | Null | JBool bool | JNum int | JStr string | JObj nat

fun truthy :: "jsval \<Rightarrow> bool" where
  "truthy Undefined = False"
| "truthy Null = False"
| "truthy (JBool b) = b"
| "truthy (JNum n) = (n \<noteq> 0)"
| "truthy (JStr s) = (s \<noteq> [])"
| "truthy (JObj r) = True"

text \<open>The JavaScript expression \<^verbatim>\<open>a || b\<close>.\<close>

definition js_or :: "jsval \<Rightarrow> jsval \<Rightarrow> jsval" where
  "js_or a b = (if truthy a then a else b)"

text \<open>\<^verbatim>\<open>Bridge.actions = ['connect', 'publish', 'subscribe', 'unsubscribe']\<close>\<close>

datatype action = Connect | Publish | Subscribe | Unsubscribe

definition actions :: "action list" where
  "actions = [Connect, Publish, Subscribe, Unsubscribe]"

text \<open>The fields of \<^verbatim>\<open>ctx\<close> that the bridge itself reads or writes.\<close>

record ctx =
  error :: jsval
  authorized :: jsval
  reject :: jsval
  topic :: jsval
  message :: jsval
  options :: jsval
  subscriptions :: jsval
  unsubscriptions :: jsval

section \<open>Calls made by the bridge\<close>

text \<open>
  The connection and the client are collaborators outside the file. Every call the
  bridge makes on them, and every \<^verbatim>\<open>error\<close> event it emits, is recorded, in order, with the
  arguments it passes (the context as it is at the moment of the call). A call on the
  connection or on the client is taken to return normally. The callbacks handed to them
  (\<^verbatim>\<open>done\<close>, the acknowledgement callback) are entry points of their own, modelled below
  as functions of the error they receive.
\<close>

datatype call =
    ConnectionPublish jsval jsval jsval
  | ConnectionOnError action ctx jsval
  | ConnectionAck action ctx
  | ConnectionClose
  | ClientPublish jsval jsval jsval
  | ClientSubscribe jsval jsval
  | ClientUnsubscribe jsval
  | ClientEnd
  | EmitError jsval

section \<open>Hooks and the pipeline\<close>

text \<open>
  A hook is a JavaScript function of \<^verbatim>\<open>(ctx, next)\<close>. What it can do to the pipeline is:
  change the shared context, call \<^verbatim>\<open>next(err)\<close> (any number of times), and put off part of
  its work to a later turn of the event loop. A hook is modelled as the list of these steps,
  chosen from the context it is invoked on.
\<close>

datatype cmd = Assign "ctx \<Rightarrow> ctx" | Next jsval | Later "cmd list"

type_synonym hook = "ctx \<Rightarrow> cmd list"

type_synonym callback = "jsval \<Rightarrow> ctx \<Rightarrow> ctx \<times> call list"

text \<open>
  A task waiting in the event loop: the \<^verbatim>\<open>cb\<close> given to \<^verbatim>\<open>process.nextTick\<close>, or the
  deferred steps of a hook. Tasks run in the order they were queued.
\<close>

datatype task = RunCallback | RunCmds "cmd list"

text \<open>
  What is observed of one pipeline run: the invocation of a hook (by its index in the
  action's list), the invocation of \<^verbatim>\<open>next\<close> with its argument, the invocation of the
  completion callback \<^verbatim>\<open>cb\<close>, the start of a new turn of the event loop, and the calls the
  completion callback makes.
\<close>

datatype event = HookCall nat | NextCall jsval | Callback jsval | Tick | Call call

text \<open>
  The state of one run of \<^verbatim>\<open>trigger\<close>: the shared context, the closure variable
  \<^verbatim>\<open>cur\<close>, the tasks queued, and what has happened so far.
\<close>

record state =
  cx :: ctx
  cur :: nat
  queue :: "task list"
  trace :: "event list"

text \<open>\<^verbatim>\<open>cb(err)\<close>: the callback sees, and may change, the shared context.\<close>

definition call_cb :: "callback \<Rightarrow> jsval \<Rightarrow> state \<Rightarrow> state" where
  "call_cb cb err s =
     s\<lparr>cx := fst (cb err (cx s)),
       trace := trace s @ Callback err # map Call (snd (cb err (cx s)))\<rparr>"

text \<open>
  The interpreter. The third argument is the JavaScript call stack: the steps that remain
  in each hook body being executed, innermost first. The equation for \<open>Next\<close> is the
  function \<^verbatim>\<open>next\<close> of lines 210 to 216: with an error, or with no hook at \<^verbatim>\<open>cur + 1\<close>, it
  calls \<^verbatim>\<open>cb(err)\<close>; otherwise it increments \<^verbatim>\<open>cur\<close> and calls that hook, which runs before
  the caller continues. When the stack is empty the current turn is over; the first argument
  is the number of further turns of the event loop that are observed.
\<close>

function exec :: "nat \<Rightarrow> hook list \<Rightarrow> callback \<Rightarrow> cmd list list \<Rightarrow> state \<Rightarrow> state" where
  "exec 0 hs cb [] s = s"
| "exec (Suc n) hs cb [] s =
     (case queue s of
        [] \<Rightarrow> s
      | RunCallback # q \<Rightarrow>
          exec n hs cb [] (call_cb cb Undefined (s\<lparr>queue := q, trace := trace s @ [Tick]\<rparr>))
      | RunCmds cs # q \<Rightarrow>
          exec n hs cb [cs] (s\<lparr>queue := q, trace := trace s @ [Tick]\<rparr>))"
| "exec n hs cb ([] # st) s = exec n hs cb st s"
| "exec n hs cb ((Assign f # cs) # st) s = exec n hs cb (cs # st) (s\<lparr>cx := f (cx s)\<rparr>)"
| "exec n hs cb ((Later ds # cs) # st) s =
     exec n hs cb (cs # st) (s\<lparr>queue := queue s @ [RunCmds ds]\<rparr>)"
| "exec n hs cb ((Next err # cs) # st) s =
     (if truthy err \<or> \<not> cur s + 1 < length hs
      then exec n hs cb (cs # st) (call_cb cb err (s\<lparr>trace := trace s @ [NextCall err]\<rparr>))
      else exec n hs cb ((hs ! (cur s + 1)) (cx s) # cs # st)
             (s\<lparr>cur := cur s + 1,
               trace := trace s @ [NextCall err, HookCall (cur s + 1)]\<rparr>))"
  by pat_completeness auto
termination
  by (relation "inv_image (less_than <*lex*> less_than <*lex*> less_than)
        (\<lambda>(n, hs, cb, st, s). (n, length hs - cur s, length (concat st) + length st))")
     (auto simp: call_cb_def)

section \<open>The bridge\<close>

text \<open>
  \<^verbatim>\<open>this.hooks\<close> maps an action to its list of hooks, or to nothing (\<^verbatim>\<open>undefined\<close>).
  \<open>forwarders\<close> counts the \<^verbatim>\<open>message\<close> listeners that \<^verbatim>\<open>connect\<close> has put on the client.
  The bridge is an \<^verbatim>\<open>EventEmitter\<close> (line 47); \<open>error_listeners\<close> counts the listeners
  of its own \<^verbatim>\<open>error\<close> event.
\<close>

record bridge =
  hooks :: "action \<Rightarrow> hook list option"
  forwarders :: nat
  error_listeners :: nat

text \<open>
  \<^verbatim>\<open>new Bridge(connection, client)\<close>: \<^verbatim>\<open>this.hooks = {}\<close>, and an event emitter without
  listeners.
\<close>

definition Bridge :: bridge where
  "Bridge = \<lparr>hooks = (\<lambda>a. None), forwarders = 0, error_listeners = 0\<rparr>"

text \<open>
  \<^verbatim>\<open>bridge.on('error', listener)\<close>, inherited from \<^verbatim>\<open>EventEmitter\<close>: the owner of the
  bridge registers a listener. Neither the constructor nor \<^verbatim>\<open>connect\<close> does.
\<close>

definition on_error :: "bridge \<Rightarrow> bridge" where
  "on_error b = b\<lparr>error_listeners := Suc (error_listeners b)\<rparr>"

text \<open>
  \<^verbatim>\<open>Bridge.prototype.before\<close>. The hook of the model is a function by its type, so the
  \<^verbatim>\<open>typeof hook !== 'function'\<close> failure cannot arise.
\<close>

definition before :: "bridge \<Rightarrow> action \<Rightarrow> hook \<Rightarrow> bridge" where
  "before b action h =
     b\<lparr>hooks := (hooks b)(action :=
          Some ((case hooks b action of None \<Rightarrow> [] | Some hs \<Rightarrow> hs) @ [h]))\<rparr>"

text \<open>
  \<^verbatim>\<open>Bridge.prototype.connect\<close>, as far as the bridge's own state goes: one more
  \<^verbatim>\<open>message\<close> listener on the client, and \<^verbatim>\<open>hooks[action] = hooks[action] || []\<close> for each
  of the four actions (an array, even an empty one, is truthy).
\<close>

definition connect :: "bridge \<Rightarrow> bridge" where
  "connect b =
     b\<lparr>hooks := (\<lambda>a. if a \<in> set actions
                      then Some (case hooks b a of None \<Rightarrow> [] | Some hs \<Rightarrow> hs)
                      else hooks b a),
       forwarders := Suc (forwarders b)\<rparr>"

section \<open>The callbacks of the bridge\<close>

text \<open>How a function ends: it returns, or an exception leaves it.\<close>

datatype outcome = Returns | Throws

text \<open>
  \<^verbatim>\<open>bridge.emit('error', err)\<close>. An \<^verbatim>\<open>EventEmitter\<close> of Node that has no listener for
  \<^verbatim>\<open>error\<close> throws when that event is emitted; with a listener it calls the listeners
  and returns.
\<close>

definition emit_error :: "bridge \<Rightarrow> outcome" where
  "emit_error b = (if error_listeners b = 0 then Throws else Returns)"

text \<open>
  \<^verbatim>\<open>function error(err) { bridge.emit('error', err); }\<close>: the event it emits.
\<close>

definition bridge_error :: "jsval \<Rightarrow> call list" where
  "bridge_error err = [EmitError err]"

text \<open>
  The callback given to \<^verbatim>\<open>connection.ack\<close> (lines 106 to 113). \<^verbatim>\<open>error(err)\<close> is its
  last statement, so what it calls is the same whether the emission throws or not.
\<close>

definition ack_callback :: "jsval \<Rightarrow> call list" where
  "ack_callback err = (if truthy err then ConnectionClose # bridge_error err else [])"

text \<open>
  \<^verbatim>\<open>function done(err)\<close> (lines 99 to 114); \<^verbatim>\<open>done()\<close> is \<open>done_fn b action c Undefined\<close>.
  With an error, \<^verbatim>\<open>error(err)\<close> is its first statement: when the emission throws,
  \<^verbatim>\<open>client.end()\<close> and \<^verbatim>\<open>connection.ack\<close> are not reached.
\<close>

definition done_fn :: "bridge \<Rightarrow> action \<Rightarrow> ctx \<Rightarrow> jsval \<Rightarrow> call list \<times> outcome" where
  "done_fn b action c err =
     (if truthy err then
        (case emit_error b of
           Throws \<Rightarrow> (bridge_error err, Throws)
         | Returns \<Rightarrow> (bridge_error err @ [ClientEnd, ConnectionAck action c], Returns))
      else ([ConnectionAck action c], Returns))"

text \<open>
  The \<^verbatim>\<open>switch(action)\<close> of lines 86 to 96: the call on the client, together with the
  completion callback handed to it, which is \<^verbatim>\<open>done\<close> in each case. It is only reached for
  an action other than \<^verbatim>\<open>connect\<close>; no case matches \<^verbatim>\<open>connect\<close>.
\<close>

type_synonym completion = "jsval \<Rightarrow> call list \<times> outcome"

definition dispatch :: "bridge \<Rightarrow> action \<Rightarrow> ctx \<Rightarrow> (call \<times> completion) list" where
  "dispatch b action c =
     (case action of
        Publish \<Rightarrow> [(ClientPublish (topic c) (message c) (options c), done_fn b action c)]
      | Subscribe \<Rightarrow>
          [(ClientSubscribe (js_or (subscriptions c) (topic c)) (options c), done_fn b action c)]
      | Unsubscribe \<Rightarrow>
          [(ClientUnsubscribe (js_or (unsubscriptions c) (topic c)), done_fn b action c)]
      | Connect \<Rightarrow> [])"

text \<open>
  The callback that the action listener passes to \<^verbatim>\<open>bridge.trigger\<close> (lines 71 to 97):
  it stores the error on the context and decides what to call.
\<close>

definition trigger_callback :: "bridge \<Rightarrow> action \<Rightarrow> jsval \<Rightarrow> ctx \<Rightarrow> ctx \<times> call list" where
  "trigger_callback b action err c0 =
     (let c = c0\<lparr>error := err\<rparr> in
      if action = Connect then (c, fst (done_fn b action c Undefined))
      else if truthy err then (c, [ConnectionOnError action c err])
      else if authorized c = JBool False \<or> truthy (reject c)
        then (c, fst (done_fn b action c Undefined))
      else (c, map fst (dispatch b action c)))"

text \<open>The listener of the client's \<^verbatim>\<open>message\<close> event (lines 61 to 64).\<close>

definition on_message :: "jsval \<Rightarrow> jsval \<Rightarrow> jsval \<Rightarrow> call list" where
  "on_message t m opts = [ConnectionPublish t m opts]"

text \<open>The client emits \<^verbatim>\<open>message\<close>: every listener registered by \<^verbatim>\<open>connect\<close> runs.\<close>

definition client_message :: "bridge \<Rightarrow> jsval \<Rightarrow> jsval \<Rightarrow> jsval \<Rightarrow> call list" where
  "client_message b t m opts = concat (replicate (forwarders b) (on_message t m opts))"

text \<open>
  \<^verbatim>\<open>Bridge.prototype.trigger\<close>, followed by \<open>n\<close> turns of the event loop
  (\<open>n = 0\<close> is the call itself, up to its return). \<^verbatim>\<open>numHooks\<close> is falsy when the action has
  no list or an empty one; then \<^verbatim>\<open>cb\<close> is queued with \<^verbatim>\<open>process.nextTick\<close>. Otherwise
  \<^verbatim>\<open>hooks[0](ctx, next)\<close> is called at once.
\<close>

definition trigger :: "bridge \<Rightarrow> action \<Rightarrow> ctx \<Rightarrow> callback \<Rightarrow> nat \<Rightarrow> state" where
  "trigger b action c cb n =
     (case hooks b action of
        None \<Rightarrow> exec n [] cb [] \<lparr>cx = c, cur = 0, queue = [RunCallback], trace = []\<rparr>
      | Some [] \<Rightarrow> exec n [] cb [] \<lparr>cx = c, cur = 0, queue = [RunCallback], trace = []\<rparr>
      | Some (h # hs) \<Rightarrow>
          exec n (h # hs) cb [h c] \<lparr>cx = c, cur = 0, queue = [], trace = [HookCall 0]\<rparr>)"

text \<open>The listener that \<^verbatim>\<open>connect\<close> registers for \<^verbatim>\<open>action\<close> on the connection (line 69).\<close>

definition on_action :: "bridge \<Rightarrow> action \<Rightarrow> ctx \<Rightarrow> nat \<Rightarrow> state" where
  "on_action b action c n = trigger b action c (trigger_callback b action) n"

text \<open>Projections of a trace.\<close>

fun is_pipeline :: "event \<Rightarrow> bool" where
  "is_pipeline (HookCall i) = True"
| "is_pipeline (NextCall e) = True"
| "is_pipeline (Callback e) = True"
| "is_pipeline Tick = False"
| "is_pipeline (Call x) = False"

definition pipeline :: "event list \<Rightarrow> event list" where
  "pipeline tr = filter is_pipeline tr"

fun calls :: "event list \<Rightarrow> call list" where
  "calls [] = []"
| "calls (Call x # tr) = x # calls tr"
| "calls (e # tr) = calls tr"

text \<open>
  How often a list of steps calls \<^verbatim>\<open>next\<close>, counting the deferred steps too.
\<close>

fun next_calls :: "cmd \<Rightarrow> nat" where
  "next_calls (Assign f) = 0"
| "next_calls (Next e) = 1"
| "next_calls (Later ds) = sum_list (map next_calls ds)"

definition calls_next :: "cmd list \<Rightarrow> nat" where
  "calls_next cs = sum_list (map next_calls cs)"

fun task_calls_next :: "task \<Rightarrow> nat" where
  "task_calls_next RunCallback = 0"
| "task_calls_next (RunCmds cs) = calls_next cs"

text \<open>The calls of \<^verbatim>\<open>next\<close> still to come from the stack and from the queued tasks.\<close>

definition pending :: "cmd list list \<Rightarrow> task list \<Rightarrow> nat" where
  "pending st q = sum_list (map calls_next st) + sum_list (map task_calls_next q)"

text \<open>
  The pipeline as section 4.1 of the specification words it, for a chain of \<open>len\<close> hooks:
  the first hook is invoked; when the hook last invoked calls \<^verbatim>\<open>next\<close> without an error
  and a later hook exists, that hook is invoked; when it calls \<^verbatim>\<open>next\<close> with an error, or
  is the last one, the run completes with the value given; after that nothing happens.
  \<open>spec_run len tr i fin\<close>: \<open>tr\<close> is such a run, hook \<open>i\<close> is the last one invoked, and
  \<open>fin\<close> tells whether the run has completed.
\<close>

inductive spec_run :: "nat \<Rightarrow> event list \<Rightarrow> nat \<Rightarrow> bool \<Rightarrow> bool" where
  first: "0 < len \<Longrightarrow> spec_run len [HookCall 0] 0 False"
| advance: "spec_run len tr i False \<Longrightarrow> \<not> truthy e \<Longrightarrow> Suc i < len \<Longrightarrow>
            spec_run len (tr @ [NextCall e, HookCall (Suc i)]) (Suc i) False"
| complete: "spec_run len tr i False \<Longrightarrow> truthy e \<or> Suc i = len \<Longrightarrow>
             spec_run len (tr @ [NextCall e, Callback e]) i True"

text \<open>
  The pipeline as a sequential iterator over the hooks, as sections 4.1 and 9 of the
  specification describe it: each hook yields a result, the context as it leaves it and the
  value it gives to \<^verbatim>\<open>next\<close>, and a driving loop goes on to the following hook or
  completes. \<open>hook_result\<close> is the result of a hook body that calls \<^verbatim>\<open>next\<close> exactly once,
  as its last step, at once or after putting its work off (the third component counts the
  turns of the event loop it waits for); any other body has no result.
\<close>

fun hook_result :: "cmd list \<Rightarrow> ctx \<Rightarrow> (ctx \<times> jsval \<times> nat) option" where
  "hook_result [Next e] c = Some (c, e, 0)"
| "hook_result [Later ds] c =
     (case hook_result ds c of None \<Rightarrow> None | Some (c', e, d) \<Rightarrow> Some (c', e, Suc d))"
| "hook_result (Assign f # cs) c = hook_result cs (f c)"
| "hook_result cs c = None"

text \<open>
  \<open>spec_pipeline cb i hs c\<close>: the hooks \<open>hs\<close>, the first of which has index \<open>i\<close> and has
  just been invoked, run on the context \<open>c\<close>. The result is what happens from there on, the
  context at the end, and the number of turns of the event loop it takes. A hook is run on
  the context as the hook before it left it; an error, or the end of the list, completes
  the run with the value given, and the hooks that remain are not run.
\<close>

fun spec_pipeline ::
  "callback \<Rightarrow> nat \<Rightarrow> hook list \<Rightarrow> ctx \<Rightarrow> (event list \<times> ctx \<times> nat) option" where
  "spec_pipeline cb i [] c = None"
| "spec_pipeline cb i (h # rest) c =
     (case hook_result (h c) c of
        None \<Rightarrow> None
      | Some (c', e, d) \<Rightarrow>
          if truthy e \<or> rest = [] then
            Some (replicate d Tick @ NextCall e # Callback e # map Call (snd (cb e c')),
                  fst (cb e c'), d)
          else
            (case spec_pipeline cb (Suc i) rest c' of
               None \<Rightarrow> None
             | Some (tr, cf, d') \<Rightarrow>
                 Some (replicate d Tick @ NextCall e # HookCall (Suc i) # tr, cf, d + d')))"

text \<open>Recognisers for single calls and events.\<close>

fun is_ack :: "call \<Rightarrow> bool" where
  "is_ack (ConnectionAck a c) = True"
| "is_ack x = False"

fun is_ack_of :: "action \<Rightarrow> call \<Rightarrow> bool" where
  "is_ack_of a (ConnectionAck a' c) = (a' = a)"
| "is_ack_of a x = False"

fun is_callback :: "event \<Rightarrow> bool" where
  "is_callback (Callback e) = True"
| "is_callback x = False"

text \<open>The indices of the hooks invoked, in the order of their invocation.\<close>

fun hook_indices :: "event list \<Rightarrow> nat list" where
  "hook_indices [] = []"
| "hook_indices (HookCall i # tr) = i # hook_indices tr"
| "hook_indices (x # tr) = hook_indices tr"

text \<open>
  Every call of \<^verbatim>\<open>next\<close> with an error is followed at once by the completion callback
  with that error.
\<close>

fun errors_complete :: "event list \<Rightarrow> bool" where
  "errors_complete [] = True"
| "errors_complete (NextCall e # tr) =
     ((if truthy e then take 1 tr = [Callback e] else True) \<and> errors_complete tr)"
| "errors_complete (x # tr) = errors_complete tr"

text \<open>
  Every call of \<^verbatim>\<open>next\<close> is followed at once by what it causes: the completion
  callback with the value given, or the invocation of a hook.
\<close>

fun acts_on_next :: "event list \<Rightarrow> bool" where
  "acts_on_next [] = True"
| "acts_on_next (NextCall e # Callback e' # tr) = (e' = e \<and> acts_on_next tr)"
| "acts_on_next (NextCall e # HookCall i # tr) = acts_on_next tr"
| "acts_on_next (NextCall e # tr) = False"
| "acts_on_next (x # tr) = acts_on_next tr"

text \<open>Registering a list of hooks, in order, with \<open>before\<close>.\<close>

definition register :: "bridge \<Rightarrow> (action \<times> hook) list \<Rightarrow> bridge" where
  "register b regs = foldl (\<lambda>b' (a, h). before b' a h) b regs"

text \<open>A context and some hooks to run the definitions on.\<close>

definition example_ctx :: ctx where
  "example_ctx =
     \<lparr>error = Undefined, authorized = JBool True, reject = JBool False,
      topic = JStr ''t1'', message = JStr ''m1'', options = JObj 0,
      subscriptions = Undefined, unsubscriptions = Undefined\<rparr>"

definition allow_hook :: hook where
  "allow_hook = (\<lambda>c. [Next Undefined])"

definition deny_hook :: hook where
  "deny_hook = (\<lambda>c. [Next (JStr ''denied'')])"

definition reject_hook :: hook where
  "reject_hook = (\<lambda>c. [Assign (\<lambda>c'. c'\<lparr>reject := JBool True\<rparr>), Later [Next Undefined]])"

definition twice_hook :: hook where
  "twice_hook = (\<lambda>c. [Next Undefined, Next Undefined])"

definition silent_hook :: hook where
  "silent_hook = (\<lambda>c. [])"

definition deny_then_next_hook :: hook where
  "deny_then_next_hook = (\<lambda>c. [Next (JStr ''denied''), Next Undefined])"

definition chain_bridge :: bridge where
  "chain_bridge =
     register (connect Bridge) [(Publish, reject_hook), (Publish, deny_hook), (Publish, allow_hook)]"

definition sync_bridge :: bridge where
  "sync_bridge = register (connect Bridge) [(Subscribe, allow_hook), (Subscribe, allow_hook)]"

definition relapse_bridge :: bridge where
  "relapse_bridge =
     register (connect Bridge) [(Publish, deny_then_next_hook), (Publish, allow_hook)]"

definition twice_bridge :: bridge where
  "twice_bridge =
     register (connect Bridge) [(Publish, twice_hook), (Publish, silent_hook), (Publish, silent_hook)]"

section \<open>Basic facts\<close>

lemma cur_call_cb [simp]: "cur (call_cb cb err s) = cur s"
  by (simp add: call_cb_def)

lemma queue_call_cb [simp]: "queue (call_cb cb err s) = queue s"
  by (simp add: call_cb_def)

lemma trace_call_cb [simp]:
  "trace (call_cb cb err s) = trace s @ Callback err # map Call (snd (cb err (cx s)))"
  by (simp add: call_cb_def)

lemma cx_call_cb [simp]: "cx (call_cb cb err s) = fst (cb err (cx s))"
  by (simp add: call_cb_def)

lemma pipeline_append [simp]: "pipeline (xs @ ys) = pipeline xs @ pipeline ys"
  by (simp add: pipeline_def)

lemma pipeline_Call [simp]: "pipeline (map Call xs) = []"
  by (induction xs) (simp_all add: pipeline_def)

lemma pipeline_simps [simp]:
  "pipeline [] = []"
  "pipeline (HookCall i # tr) = HookCall i # pipeline tr"
  "pipeline (NextCall e # tr) = NextCall e # pipeline tr"
  "pipeline (Callback e # tr) = Callback e # pipeline tr"
  "pipeline (Tick # tr) = pipeline tr"
  "pipeline (Call x # tr) = pipeline tr"
  by (simp_all add: pipeline_def)

lemma calls_append [simp]: "calls (xs @ ys) = calls xs @ calls ys"
  by (induction xs rule: calls.induct) simp_all

lemma calls_Call [simp]: "calls (map Call xs) = xs"
  by (induction xs) simp_all

text \<open>With nothing queued, further turns of the event loop change nothing.\<close>

lemma exec_idle: "queue s = [] \<Longrightarrow> exec n hs cb [] s = s"
  by (cases n) simp_all

lemma forwarders_register: "forwarders (register b regs) = forwarders b"
  unfolding register_def
  by (induction regs arbitrary: b) (simp_all add: before_def split: prod.splits)

lemmas bridge_defs =
  on_action_def trigger_def before_def connect_def Bridge_def actions_def
  trigger_callback_def done_fn_def dispatch_def js_or_def Let_def on_error_def

lemmas example_defs =
  example_ctx_def allow_hook_def deny_hook_def reject_hook_def twice_hook_def silent_hook_def
  deny_then_next_hook_def chain_bridge_def sync_bridge_def twice_bridge_def relapse_bridge_def
  register_def

section \<open>Invariants of the interpreter\<close>

text \<open>
  A property of the state that is kept by every step of the interpreter holds after any
  run.
\<close>

lemma exec_state_invariant:
  "I s \<Longrightarrow>
   \<forall>s c. I s \<longrightarrow> I (s\<lparr>cx := c\<rparr>) \<Longrightarrow>
   \<forall>s q. I s \<longrightarrow> I (s\<lparr>queue := q\<rparr>) \<Longrightarrow>
   \<forall>s. I s \<longrightarrow> I (s\<lparr>trace := trace s @ [Tick]\<rparr>) \<Longrightarrow>
   \<forall>s. I s \<longrightarrow> I (call_cb cb Undefined s) \<Longrightarrow>
   \<forall>s e. I s \<longrightarrow> truthy e \<or> \<not> cur s + 1 < length hs \<longrightarrow>
      I (call_cb cb e (s\<lparr>trace := trace s @ [NextCall e]\<rparr>)) \<Longrightarrow>
   \<forall>s e. I s \<longrightarrow> \<not> truthy e \<longrightarrow> cur s + 1 < length hs \<longrightarrow>
      I (s\<lparr>cur := cur s + 1, trace := trace s @ [NextCall e, HookCall (cur s + 1)]\<rparr>) \<Longrightarrow>
   I (exec n hs cb st s)"
proof (induction n hs cb st s rule: exec.induct)
  case (1 hs cb s)
  then show ?case by simp
next
  case (2 n hs cb s)
  note inv = 2(3) and asg = 2(4) and que = 2(5) and tick = 2(6) and idle = 2(7)
    and fin = 2(8) and adv = 2(9)
  show ?case
  proof (cases "queue s")
    case Nil
    then show ?thesis using inv by simp
  next
    case (Cons t q)
    have "I (s\<lparr>queue := q\<rparr>)" by (rule que [rule_format, OF inv])
    then have "I ((s\<lparr>queue := q\<rparr>)\<lparr>trace := trace (s\<lparr>queue := q\<rparr>) @ [Tick]\<rparr>)"
      by (rule tick [rule_format])
    then have t: "I (s\<lparr>queue := q, trace := trace s @ [Tick]\<rparr>)" by simp
    show ?thesis
    proof (cases t)
      case RunCallback
      have "I (call_cb cb Undefined (s\<lparr>queue := q, trace := trace s @ [Tick]\<rparr>))"
        by (rule idle [rule_format, OF t])
      then have "I (exec n hs cb []
                   (call_cb cb Undefined (s\<lparr>queue := q, trace := trace s @ [Tick]\<rparr>)))"
        by (rule 2(1) [OF Cons RunCallback _ asg que tick idle fin adv])
      then show ?thesis using Cons RunCallback by simp
    next
      case (RunCmds cs)
      have "I (exec n hs cb [cs] (s\<lparr>queue := q, trace := trace s @ [Tick]\<rparr>))"
        by (rule 2(2) [OF Cons RunCmds t asg que tick idle fin adv])
      then show ?thesis using Cons RunCmds by simp
    qed
  qed
next
  case (3 n hs cb st s)
  have "I (exec n hs cb st s)" by (rule 3(1) [OF 3(2-8)])
  then show ?case by simp
next
  case (4 n hs cb f cs st s)
  have "I (s\<lparr>cx := f (cx s)\<rparr>)" by (rule 4(3) [rule_format, OF 4(2)])
  then have "I (exec n hs cb (cs # st) (s\<lparr>cx := f (cx s)\<rparr>))"
    by (rule 4(1) [OF _ 4(3-8)])
  then show ?case by simp
next
  case (5 n hs cb ds cs st s)
  have "I (s\<lparr>queue := queue s @ [RunCmds ds]\<rparr>)" by (rule 5(4) [rule_format, OF 5(2)])
  then have "I (exec n hs cb (cs # st) (s\<lparr>queue := queue s @ [RunCmds ds]\<rparr>))"
    by (rule 5(1) [OF _ 5(3-8)])
  then show ?case by simp
next
  case (6 n hs cb err cs st s)
  show ?case
  proof (cases "truthy err \<or> \<not> cur s + 1 < length hs")
    case True
    have "I (call_cb cb err (s\<lparr>trace := trace s @ [NextCall err]\<rparr>))"
      by (rule 6(8) [rule_format, OF 6(3) True])
    then have "I (exec n hs cb (cs # st)
                 (call_cb cb err (s\<lparr>trace := trace s @ [NextCall err]\<rparr>)))"
      by (rule 6(1) [OF True _ 6(4-9)])
    then show ?thesis using True by simp
  next
    case False
    then have a: "\<not> truthy err" and b: "cur s + 1 < length hs" by simp_all
    have "I (s\<lparr>cur := cur s + 1, trace := trace s @ [NextCall err, HookCall (cur s + 1)]\<rparr>)"
      by (rule 6(9) [rule_format, OF 6(3) a b])
    then have "I (exec n hs cb ((hs ! (cur s + 1)) (cx s) # cs # st)
                 (s\<lparr>cur := cur s + 1,
                   trace := trace s @ [NextCall err, HookCall (cur s + 1)]\<rparr>))"
      by (rule 6(2) [OF False _ 6(4-9)])
    then show ?thesis using False by simp
  qed
qed

text \<open>
  A property of the trace that holds at the start and is kept by every kind of event
  holds after any run.
\<close>

lemma exec_trace_invariant:
  assumes start: "P (trace s)"
    and step: "(\<forall>tr. P tr \<longrightarrow> P (tr @ [Tick])) \<and>
   (\<forall>tr e. P tr \<longrightarrow> P (tr @ [NextCall e])) \<and>
   (\<forall>tr i. P tr \<longrightarrow> P (tr @ [HookCall i])) \<and>
   (\<forall>tr e c. P tr \<longrightarrow> P (tr @ Callback e # map Call (snd (cb e c))))"
  shows "P (trace (exec n hs cb st s))"
proof (rule exec_state_invariant [where I = "\<lambda>s. P (trace s)"])
  show "P (trace s)" by (rule start)
  show "\<forall>s c. P (trace s) \<longrightarrow> P (trace (s\<lparr>cx := c\<rparr>))" by simp
  show "\<forall>s q. P (trace s) \<longrightarrow> P (trace (s\<lparr>queue := q\<rparr>))" by simp
  show "\<forall>s. P (trace s) \<longrightarrow> P (trace (s\<lparr>trace := trace s @ [Tick]\<rparr>))"
    using step by simp
  show "\<forall>s. P (trace s) \<longrightarrow> P (trace (call_cb cb Undefined s))"
    using step by simp
  show "\<forall>s e. P (trace s) \<longrightarrow> truthy e \<or> \<not> cur s + 1 < length hs \<longrightarrow>
          P (trace (call_cb cb e (s\<lparr>trace := trace s @ [NextCall e]\<rparr>)))"
  proof (intro allI impI)
    fix s :: state and e
    assume "P (trace s)"
    then have "P (trace s @ [NextCall e])" using step by blast
    then have "P ((trace s @ [NextCall e]) @ Callback e # map Call (snd (cb e (cx s))))"
      using step by blast
    then show "P (trace (call_cb cb e (s\<lparr>trace := trace s @ [NextCall e]\<rparr>)))" by simp
  qed
  show "\<forall>(s::state) e. P (trace s) \<longrightarrow> \<not> truthy e \<longrightarrow> cur s + 1 < length hs \<longrightarrow>
          P (trace (s\<lparr>cur := cur s + 1,
                      trace := trace s @ [NextCall e, HookCall (cur s + 1)]\<rparr>))"
  proof (intro allI impI)
    fix s :: state and e
    assume "P (trace s)"
    then have "P (trace s @ [NextCall e])" using step by blast
    then have "P ((trace s @ [NextCall e]) @ [HookCall (cur s + 1)])" using step by blast
    then show "P (trace (s\<lparr>cur := cur s + 1,
                      trace := trace s @ [NextCall e, HookCall (cur s + 1)]\<rparr>))" by simp
  qed
qed

lemma trigger_trace_invariant:
  assumes nil: "P []"
    and step: "(\<forall>tr. P tr \<longrightarrow> P (tr @ [Tick])) \<and>
   (\<forall>tr e. P tr \<longrightarrow> P (tr @ [NextCall e])) \<and>
   (\<forall>tr i. P tr \<longrightarrow> P (tr @ [HookCall i])) \<and>
   (\<forall>tr e c. P tr \<longrightarrow> P (tr @ Callback e # map Call (snd (cb e c))))"
  shows "P (trace (trigger b action c cb n))"
proof (cases "hooks b action")
  case None
  have "P (trace (exec n [] cb [] \<lparr>cx = c, cur = 0, queue = [RunCallback], trace = []\<rparr>))"
    by (rule exec_trace_invariant [OF _ step]) (simp add: nil)
  then show ?thesis using None by (simp add: trigger_def)
next
  case (Some hs)
  show ?thesis
  proof (cases hs)
    case Nil
    have "P (trace (exec n [] cb [] \<lparr>cx = c, cur = 0, queue = [RunCallback], trace = []\<rparr>))"
      by (rule exec_trace_invariant [OF _ step]) (simp add: nil)
    then show ?thesis using Some Nil by (simp add: trigger_def)
  next
    case (Cons h hs')
    have "P ([] @ [HookCall 0])" using nil step by blast
    then have h0: "P [HookCall 0]" by simp
    have "P (trace (exec n (h # hs') cb [h c]
               \<lparr>cx = c, cur = 0, queue = [], trace = [HookCall 0]\<rparr>))"
      by (rule exec_trace_invariant [OF _ step]) (simp add: h0)
    then show ?thesis using Some Cons by (simp add: trigger_def)
  qed
qed

lemma filter_callback_Call [simp]: "filter is_callback (map Call xs) = []"
  by (induction xs) simp_all

lemma is_callback_is_pipeline: "is_callback x \<Longrightarrow> is_pipeline x"
  by (cases x) simp_all

lemma filter_callback_pipeline: "filter is_callback (pipeline tr) = filter is_callback tr"
  unfolding pipeline_def by (induction tr) (auto simp: is_callback_is_pipeline)

lemma filter_callback_replicate:
  "filter is_callback (concat (replicate k [NextCall e, Callback e])) = replicate k (Callback e)"
  by (induction k) simp_all

lemma hook_indices_append [simp]: "hook_indices (xs @ ys) = hook_indices xs @ hook_indices ys"
  by (induction xs rule: hook_indices.induct) simp_all

lemma spec_run_callbacks:
  "spec_run len tr i fin \<Longrightarrow> length (filter is_callback tr) = (if fin then 1 else 0)"
  by (induction rule: spec_run.induct) simp_all

text \<open>
  In any run the hooks are invoked in the order of the list, and an error given to
  \<^verbatim>\<open>next\<close> completes the run at once.
\<close>

lemma errors_complete_append:
  "errors_complete xs \<Longrightarrow> errors_complete ys \<Longrightarrow> errors_complete (xs @ ys)"
proof (induction xs rule: errors_complete.induct)
  case (2 e tr)
  then show ?case by (cases tr) (auto split: if_splits)
qed simp_all

lemma errors_complete_Call [simp]: "errors_complete (map Call xs)"
  by (induction xs) simp_all

lemma hook_indices_Call [simp]: "hook_indices (map Call xs) = []"
  by (induction xs) simp_all

lemma exec_order:
  assumes "cur s < length hs"
    and "hook_indices (trace s) = [0..<Suc (cur s)]"
    and "errors_complete (trace s)"
  shows "cur (exec n hs cb st s) < length hs \<and>
         hook_indices (trace (exec n hs cb st s)) = [0..<Suc (cur (exec n hs cb st s))] \<and>
         errors_complete (trace (exec n hs cb st s))"
proof (rule exec_state_invariant
        [where I = "\<lambda>s. cur s < length hs \<and> hook_indices (trace s) = [0..<Suc (cur s)] \<and>
                         errors_complete (trace s)"])
  show "cur s < length hs \<and> hook_indices (trace s) = [0..<Suc (cur s)] \<and>
        errors_complete (trace s)"
    using assms by simp
qed (simp_all add: errors_complete_append)

text \<open>No call of \<^verbatim>\<open>next\<close> is ignored.\<close>

lemma acts_on_next_append:
  "acts_on_next xs \<Longrightarrow> acts_on_next ys \<Longrightarrow> acts_on_next (xs @ ys)"
  by (induction xs rule: acts_on_next.induct) simp_all

lemma acts_on_next_Call [simp]: "acts_on_next (map Call xs)"
  by (induction xs) simp_all

lemma exec_acts_on_next:
  assumes "acts_on_next (trace s)"
  shows "acts_on_next (trace (exec n hs cb st s))"
  by (rule exec_state_invariant [where I = "\<lambda>s. acts_on_next (trace s)"])
     (use assms in \<open>simp_all add: acts_on_next_append\<close>)

lemma trigger_acts_on_next: "acts_on_next (trace (trigger b action c cb n))"
  unfolding trigger_def
  by (simp add: exec_acts_on_next split: option.split list.split)


text \<open>
  When no hook calls \<^verbatim>\<open>next\<close> more than once, at most one call of \<^verbatim>\<open>next\<close> is still to
  come, and none once the run has completed; so the trace stays a run of the specification.
\<close>

lemma spec_run_bound: "spec_run len tr i fin \<Longrightarrow> i < len"
  by (induction rule: spec_run.induct) auto

lemma pending_Cons: "pending (cs # st) q = calls_next cs + pending st q"
  by (simp add: pending_def)

lemma exec_spec_run:
  "\<forall>h\<in>set hs. \<forall>c. calls_next (h c) \<le> 1 \<Longrightarrow>
   RunCallback \<notin> set (queue s) \<Longrightarrow>
   spec_run (length hs) (pipeline (trace s)) (cur s) fin \<Longrightarrow>
   pending st (queue s) \<le> (if fin then 0 else 1) \<Longrightarrow>
   \<exists>fin'. spec_run (length hs) (pipeline (trace (exec n hs cb st s)))
            (cur (exec n hs cb st s)) fin'"
proof (induction n hs cb st s arbitrary: fin rule: exec.induct)
  case (1 hs cb s)
  then show ?case by auto
next
  case (2 n hs cb s)
  show ?case
  proof (cases "queue s")
    case Nil
    then show ?thesis using 2(5) by auto
  next
    case (Cons t q)
    show ?thesis
    proof (cases t)
      case RunCallback
      then show ?thesis using 2(4) Cons by simp
    next
      case (RunCmds cs)
      have "\<exists>fin'. spec_run (length hs)
              (pipeline (trace (exec n hs cb [cs] (s\<lparr>queue := q, trace := trace s @ [Tick]\<rparr>))))
              (cur (exec n hs cb [cs] (s\<lparr>queue := q, trace := trace s @ [Tick]\<rparr>))) fin'"
      proof (rule 2(2) [OF Cons RunCmds 2(3), where fin = fin])
        show "RunCallback \<notin> set (queue (s\<lparr>queue := q, trace := trace s @ [Tick]\<rparr>))"
          using 2(4) Cons by simp
        show "spec_run (length hs) (pipeline (trace (s\<lparr>queue := q, trace := trace s @ [Tick]\<rparr>)))
               (cur (s\<lparr>queue := q, trace := trace s @ [Tick]\<rparr>)) fin"
          using 2(5) by simp
        show "pending [cs] (queue (s\<lparr>queue := q, trace := trace s @ [Tick]\<rparr>))
               \<le> (if fin then 0 else 1)"
          using 2(6) Cons RunCmds by (simp add: pending_def)
      qed
      then show ?thesis using Cons RunCmds by simp
    qed
  qed
next
  case (3 n hs cb st s)
  have "\<exists>fin'. spec_run (length hs) (pipeline (trace (exec n hs cb st s)))
            (cur (exec n hs cb st s)) fin'"
    by (rule 3(1) [OF 3(2,3,4)]) (use 3(5) in \<open>simp add: pending_def calls_next_def\<close>)
  then show ?case by simp
next
  case (4 n hs cb f cs st s)
  have "\<exists>fin'. spec_run (length hs)
          (pipeline (trace (exec n hs cb (cs # st) (s\<lparr>cx := f (cx s)\<rparr>))))
          (cur (exec n hs cb (cs # st) (s\<lparr>cx := f (cx s)\<rparr>))) fin'"
    by (rule 4(1) [OF 4(2), where fin = fin])
       (use 4(3,4,5) in \<open>simp_all add: pending_def calls_next_def\<close>)
  then show ?case by simp
next
  case (5 n hs cb ds cs st s)
  have "\<exists>fin'. spec_run (length hs)
          (pipeline (trace (exec n hs cb (cs # st) (s\<lparr>queue := queue s @ [RunCmds ds]\<rparr>))))
          (cur (exec n hs cb (cs # st) (s\<lparr>queue := queue s @ [RunCmds ds]\<rparr>))) fin'"
    by (rule 5(1) [OF 5(2), where fin = fin])
       (use 5(3,4,5) in \<open>simp_all add: pending_def calls_next_def\<close>)
  then show ?case by simp
next
  case (6 n hs cb err cs st s)
  have nofin: "\<not> fin" using 6(6) by (auto simp add: pending_def calls_next_def split: if_splits)
  then have run: "spec_run (length hs) (pipeline (trace s)) (cur s) False" using 6(5) by simp
  have rest: "pending (cs # st) (queue s) = 0"
    using 6(6) nofin by (simp add: pending_def calls_next_def)
  have bound: "cur s < length hs" by (rule spec_run_bound [OF run])
  show ?case
  proof (cases "truthy err \<or> \<not> cur s + 1 < length hs")
    case True
    then have last: "truthy err \<or> Suc (cur s) = length hs" using bound by auto
    let ?s = "call_cb cb err (s\<lparr>trace := trace s @ [NextCall err]\<rparr>)"
    have "\<exists>fin'. spec_run (length hs) (pipeline (trace (exec n hs cb (cs # st) ?s)))
            (cur (exec n hs cb (cs # st) ?s)) fin'"
    proof (rule 6(1) [OF True 6(3), where fin = True])
      show "RunCallback \<notin> set (queue ?s)" using 6(4) by simp
      show "spec_run (length hs) (pipeline (trace ?s)) (cur ?s) True"
        using spec_run.complete [OF run last] by simp
      show "pending (cs # st) (queue ?s) \<le> (if True then 0 else 1)"
        using rest by simp
    qed
    then show ?thesis using True by simp
  next
    case False
    then have more: "Suc (cur s) < length hs" and ok: "\<not> truthy err" by auto
    let ?s = "s\<lparr>cur := cur s + 1, trace := trace s @ [NextCall err, HookCall (cur s + 1)]\<rparr>"
    have "hs ! (cur s + 1) \<in> set hs" using more by simp
    then have once: "calls_next ((hs ! (cur s + 1)) (cx s)) \<le> 1" using 6(3) by blast
    have "\<exists>fin'. spec_run (length hs)
            (pipeline (trace (exec n hs cb ((hs ! (cur s + 1)) (cx s) # cs # st) ?s)))
            (cur (exec n hs cb ((hs ! (cur s + 1)) (cx s) # cs # st) ?s)) fin'"
    proof (rule 6(2) [OF False 6(3), where fin = False])
      show "RunCallback \<notin> set (queue ?s)" using 6(4) by simp
      show "spec_run (length hs) (pipeline (trace ?s)) (cur ?s) False"
        using spec_run.advance [OF run ok more] by simp
      show "pending ((hs ! (cur s + 1)) (cx s) # cs # st) (queue ?s) \<le> (if False then 0 else 1)"
        using rest once by (simp add: pending_Cons [of _ "cs # st"])
    qed
    then show ?thesis using False by simp
  qed
qed

text \<open>
  The interpreter against the sequential iterator. Empty frames at the bottom of the stack
  change nothing; a hook body with a result runs up to its call of \<^verbatim>\<open>next\<close>; that call
  completes the run or starts the following hook; so a chain on which the iterator is
  defined runs as the iterator says.
\<close>

lemma exec_pop_empty: "\<forall>f\<in>set st. f = [] \<Longrightarrow> exec n hs cb st s = exec n hs cb [] s"
  by (induction st) simp_all

lemma exec_empty_frames:
  "\<forall>f\<in>set st. f = [] \<Longrightarrow> exec n hs cb (fs @ st) s = exec n hs cb fs s"
proof (induction n hs cb fs s rule: exec.induct)
  case (1 hs cb s)
  then show ?case using exec_pop_empty [of st 0 hs cb s] by simp
next
  case (2 n hs cb s)
  show ?case using exec_pop_empty [OF 2(3), of "Suc n" hs cb s] by simp
next
  case (3 n hs cb st s)
  then show ?case by simp
next
  case (4 n hs cb f cs st s)
  then show ?case by simp
next
  case (5 n hs cb ds cs st s)
  then show ?case by simp
next
  case (6 n hs cb err cs st s)
  then show ?case by simp
qed


lemma queue_unchanged: "queue s = q \<Longrightarrow> s\<lparr>queue := q\<rparr> = s"
  by (cases s) simp

lemma exec_hook_body:
  "hook_result body c = Some (c', e, d) \<Longrightarrow> cx s = c \<Longrightarrow> queue s = [] \<Longrightarrow> d \<le> n \<Longrightarrow>
   exec n hs cb [body] s =
     exec (n - d) hs cb [[Next e]] (s\<lparr>cx := c', trace := trace s @ replicate d Tick\<rparr>)"
proof (induction body c arbitrary: s n c' e d rule: hook_result.induct)
  case (1 e0 c)
  then have "c' = cx s" "e0 = e" "d = 0" by simp_all
  then show ?case by (simp del: exec.simps)
next
  case (2 ds c)
  from 2(2) obtain d0 where r: "hook_result ds c = Some (c', e, d0)" and d: "d = Suc d0"
    by (auto split: option.splits)
  from d 2(5) obtain m where n: "n = Suc m" and m: "d0 \<le> m" by (cases n) auto
  let ?s = "s\<lparr>queue := [], trace := trace s @ [Tick]\<rparr>"
  have "exec n hs cb [[Later ds]] s = exec m hs cb [ds] ?s"
    using n 2(4) by simp
  also have "\<dots> = exec (m - d0) hs cb [[Next e]]
                      (?s\<lparr>cx := c', trace := trace ?s @ replicate d0 Tick\<rparr>)"
    by (rule 2(1) [OF r]) (use 2(3) m in simp_all)
  also have "\<dots> = exec (n - d) hs cb [[Next e]]
                      (s\<lparr>cx := c', trace := trace s @ replicate d Tick\<rparr>)"
    using n d 2(4) by (simp del: exec.simps add: replicate_append_same queue_unchanged)
  finally show ?case .
next
  case (3 f cs c)
  have "exec n hs cb [Assign f # cs] s = exec n hs cb [cs] (s\<lparr>cx := f (cx s)\<rparr>)" by simp
  also have "\<dots> = exec (n - d) hs cb [[Next e]]
        ((s\<lparr>cx := f (cx s)\<rparr>)\<lparr>cx := c', trace := trace (s\<lparr>cx := f (cx s)\<rparr>) @ replicate d Tick\<rparr>)"
    by (rule 3(1)) (use 3 in simp_all)
  finally show ?case by (simp del: exec.simps)
qed simp_all


lemma exec_next_completes:
  "truthy e \<or> \<not> cur s + 1 < length hs \<Longrightarrow> queue s = [] \<Longrightarrow>
   exec n hs cb [[Next e]] s = call_cb cb e (s\<lparr>trace := trace s @ [NextCall e]\<rparr>)"
  by (simp add: exec_idle)

lemma exec_next_advances:
  assumes "\<not> truthy e" and "cur s + 1 < length hs"
  shows "exec n hs cb [[Next e]] s =
         exec n hs cb [(hs ! (cur s + 1)) (cx s)]
           (s\<lparr>cur := cur s + 1, trace := trace s @ [NextCall e, HookCall (cur s + 1)]\<rparr>)"
proof -
  let ?s = "s\<lparr>cur := cur s + 1, trace := trace s @ [NextCall e, HookCall (cur s + 1)]\<rparr>"
  have "exec n hs cb [[Next e]] s = exec n hs cb ([(hs ! (cur s + 1)) (cx s)] @ [[]]) ?s"
    using assms by simp
  also have "\<dots> = exec n hs cb [(hs ! (cur s + 1)) (cx s)] ?s"
    by (rule exec_empty_frames) simp
  finally show ?thesis .
qed

lemma exec_chain:
  "spec_pipeline cb (length pre) (h # rest) c = Some (tr, cf, d) \<Longrightarrow>
   hs = pre @ h # rest \<Longrightarrow> cx s = c \<Longrightarrow> cur s = length pre \<Longrightarrow> queue s = [] \<Longrightarrow> d \<le> n \<Longrightarrow>
   trace (exec n hs cb [h c] s) = trace s @ tr \<and>
   cx (exec n hs cb [h c] s) = cf \<and>
   queue (exec n hs cb [h c] s) = []"
proof (induction rest arbitrary: pre h c s n tr cf d)
  case Nil
  from Nil(1) obtain c' e where r: "hook_result (h c) c = Some (c', e, d)"
    and tr: "tr = replicate d Tick @ NextCall e # Callback e # map Call (snd (cb e c'))"
    and cf: "cf = fst (cb e c')"
    by (auto split: option.splits)
  let ?s = "s\<lparr>cx := c', trace := trace s @ replicate d Tick\<rparr>"
  have "exec n hs cb [h c] s = exec (n - d) hs cb [[Next e]] ?s"
    by (rule exec_hook_body [OF r Nil(3) Nil(5) Nil(6)])
  also have "\<dots> = call_cb cb e (?s\<lparr>trace := trace ?s @ [NextCall e]\<rparr>)"
    by (rule exec_next_completes) (use Nil in simp_all)
  finally show ?case using Nil(5) by (simp add: tr cf)
next
  case (Cons h' rest')
  from Cons(2) obtain c' e d0 where r: "hook_result (h c) c = Some (c', e, d0)"
    by (auto split: option.splits)
  let ?s = "s\<lparr>cx := c', trace := trace s @ replicate d0 Tick\<rparr>"
  show ?case
  proof (cases "truthy e")
    case True
    then have tr: "tr = replicate d0 Tick @ NextCall e # Callback e # map Call (snd (cb e c'))"
      and cf: "cf = fst (cb e c')" and d: "d = d0"
      using Cons(2) r by auto
    have "exec n hs cb [h c] s = exec (n - d0) hs cb [[Next e]] ?s"
      by (rule exec_hook_body [OF r Cons(4) Cons(6)]) (use Cons(7) d in simp)
    also have "\<dots> = call_cb cb e (?s\<lparr>trace := trace ?s @ [NextCall e]\<rparr>)"
      by (rule exec_next_completes) (use True Cons in simp_all)
    finally show ?thesis using Cons(6) by (simp add: tr cf)
  next
    case False
    then obtain tr' d' where
      rec: "spec_pipeline cb (Suc (length pre)) (h' # rest') c' = Some (tr', cf, d')"
      and tr: "tr = replicate d0 Tick @ NextCall e # HookCall (Suc (length pre)) # tr'"
      and d: "d = d0 + d'"
      using Cons(2) r by (auto split: option.splits)
    let ?t = "?s\<lparr>cur := cur ?s + 1, trace := trace ?s @ [NextCall e, HookCall (cur ?s + 1)]\<rparr>"
    have nth: "hs ! (cur ?s + 1) = h'"
      using Cons(3,5) by (simp add: nth_append)
    have "exec n hs cb [h c] s = exec (n - d0) hs cb [[Next e]] ?s"
      by (rule exec_hook_body [OF r Cons(4) Cons(6)]) (use Cons(7) d in simp)
    also have "\<dots> = exec (n - d0) hs cb [(hs ! (cur ?s + 1)) (cx ?s)] ?t"
      by (rule exec_next_advances) (use False Cons(3,5) in simp_all)
    also have "\<dots> = exec (n - d0) hs cb [h' c'] ?t"
      using nth by simp
    finally have step: "exec n hs cb [h c] s = exec (n - d0) hs cb [h' c'] ?t" .
    have "trace (exec (n - d0) hs cb [h' c'] ?t) = trace ?t @ tr' \<and>
          cx (exec (n - d0) hs cb [h' c'] ?t) = cf \<and>
          queue (exec (n - d0) hs cb [h' c'] ?t) = []"
    proof (rule Cons(1) [where pre = "pre @ [h]"])
      show "spec_pipeline cb (length (pre @ [h])) (h' # rest') c' = Some (tr', cf, d')"
        using rec by simp
      show "hs = (pre @ [h]) @ h' # rest'" using Cons(3) by simp
      show "cx ?t = c'" by simp
      show "cur ?t = length (pre @ [h])" using Cons(5) by simp
      show "queue ?t = []" using Cons(6) by simp
      show "d' \<le> n - d0" using Cons(7) d by simp
    qed
    then show ?thesis using step Cons(5) by (simp add: tr)
  qed
qed

text \<open>A hook that only calls \<^verbatim>\<open>next\<close>, \<open>k\<close> times, as the last hook of its chain.\<close>

lemma exec_replicate_next:
  "\<not> cur s + 1 < length hs \<Longrightarrow> queue s = [] \<Longrightarrow>
   pipeline (trace (exec n hs cb [replicate k (Next e)] s)) =
     pipeline (trace s) @ concat (replicate k [NextCall e, Callback e])"
proof (induction k arbitrary: s)
  case 0
  then show ?case by (simp add: exec_idle)
next
  case (Suc k)
  let ?s = "call_cb cb e (s\<lparr>trace := trace s @ [NextCall e]\<rparr>)"
  have "pipeline (trace (exec n hs cb [replicate k (Next e)] ?s)) =
     pipeline (trace ?s) @ concat (replicate k [NextCall e, Callback e])"
    by (rule Suc.IH) (use Suc.prems in simp_all)
  then show ?case using Suc.prems by simp
qed

lemma calls_single [simp]:
  "calls [Tick] = []" "calls [NextCall e] = []" "calls [HookCall i] = []"
  "calls (Callback e # tr) = calls tr"
  by simp_all

section \<open>The callback of the action listener\<close>

text \<open>
  Claim C1, as amended. When the pipeline of an action other than \<^verbatim>\<open>connect\<close> completes
  with an error, the bridge stores the error on the context and calls
  \<^verbatim>\<open>connection.onError(action, ctx, err)\<close>; that is the only call it makes: the listener
  returns there (line 79), so the bridge itself sends no acknowledgement and dispatches
  nothing upstream.
\<close>

theorem hook_error_goes_to_onError:
  "action \<noteq> Connect \<Longrightarrow> truthy err \<Longrightarrow>
   trigger_callback b action err c =
     (c\<lparr>error := err\<rparr>, [ConnectionOnError action (c\<lparr>error := err\<rparr>) err])"
  by (simp add: trigger_callback_def Let_def)

theorem hook_error_goes_to_onError_witness:
  "Publish \<noteq> Connect \<and> truthy (JStr ''denied'') \<and>
   trigger_callback Bridge Publish (JStr ''denied'') example_ctx =
     (example_ctx\<lparr>error := JStr ''denied''\<rparr>,
      [ConnectionOnError Publish (example_ctx\<lparr>error := JStr ''denied''\<rparr>) (JStr ''denied'')])"
  using hook_error_goes_to_onError
    [where action = Publish and err = "JStr ''denied''" and b = Bridge and c = example_ctx]
  by simp

text \<open>
  Claim C1 as it is stated fails: a \<^verbatim>\<open>publish\<close> whose only hook calls
  \<^verbatim>\<open>next('denied')\<close> leads to the call of \<^verbatim>\<open>onError\<close> and to no acknowledgement, also
  after two more turns of the event loop.
\<close>

theorem hook_error_not_acknowledged:
  "calls (trace (on_action (before (connect Bridge) Publish deny_hook) Publish example_ctx 2)) =
     [ConnectionOnError Publish (example_ctx\<lparr>error := JStr ''denied''\<rparr>) (JStr ''denied'')]
   \<and> filter is_ack
        (calls (trace (on_action (before (connect Bridge) Publish deny_hook) Publish example_ctx 2)))
      = []"
  by (simp add: bridge_defs example_defs exec_idle)

text \<open>
  Claim C3. When the pipeline of \<^verbatim>\<open>publish\<close>, \<^verbatim>\<open>subscribe\<close> or \<^verbatim>\<open>unsubscribe\<close>
  completes without an error and the context has \<^verbatim>\<open>authorized === false\<close> or
  \<^verbatim>\<open>reject === true\<close>, the bridge calls nothing on the client and acknowledges the action
  with its context.
\<close>

theorem denied_action_not_dispatched:
  "action \<noteq> Connect \<Longrightarrow> \<not> truthy err \<Longrightarrow>
   authorized c = JBool False \<or> reject c = JBool True \<Longrightarrow>
   trigger_callback b action err c =
     (c\<lparr>error := err\<rparr>, [ConnectionAck action (c\<lparr>error := err\<rparr>)])"
  by (auto simp add: trigger_callback_def done_fn_def Let_def)

theorem denied_action_not_dispatched_witness:
  "Subscribe \<noteq> Connect \<and> \<not> truthy Undefined \<and>
   (authorized (example_ctx\<lparr>authorized := JBool False\<rparr>) = JBool False \<or>
    reject (example_ctx\<lparr>authorized := JBool False\<rparr>) = JBool True) \<and>
   trigger_callback Bridge Subscribe Undefined (example_ctx\<lparr>authorized := JBool False\<rparr>) =
     (example_ctx\<lparr>authorized := JBool False, error := Undefined\<rparr>,
      [ConnectionAck Subscribe (example_ctx\<lparr>authorized := JBool False, error := Undefined\<rparr>)])"
  using denied_action_not_dispatched
    [where action = Subscribe and err = Undefined and b = Bridge
       and c = "example_ctx\<lparr>authorized := JBool False\<rparr>"]
  by simp

section \<open>The completion callbacks of the collaborators\<close>

text \<open>
  Claim C5, as amended. On a bridge that has a listener for its \<^verbatim>\<open>error\<close> event, every
  upstream dispatch (\<^verbatim>\<open>publish\<close>, \<^verbatim>\<open>subscribe\<close>, \<^verbatim>\<open>unsubscribe\<close>) is one call on the
  client with a completion callback, and when that callback receives an error the bridge
  emits one \<^verbatim>\<open>error\<close> event with that error, calls \<^verbatim>\<open>client.end()\<close> once, and after
  that calls \<^verbatim>\<open>connection.ack\<close> once with the action and the context.
\<close>

theorem dispatch_error_handling:
  "0 < error_listeners b \<Longrightarrow> truthy err \<Longrightarrow> action \<noteq> Connect \<Longrightarrow>
   \<exists>x k. dispatch b action c = [(x, k)] \<and>
         k err = ([EmitError err, ClientEnd, ConnectionAck action c], Returns)"
  by (cases action) (simp_all add: dispatch_def done_fn_def emit_error_def bridge_error_def)

theorem dispatch_error_handling_witness:
  "0 < error_listeners (on_error (connect Bridge)) \<and> truthy (JObj 7) \<and> Publish \<noteq> Connect \<and>
   (\<exists>x k. dispatch (on_error (connect Bridge)) Publish example_ctx = [(x, k)] \<and>
          k (JObj 7) = ([EmitError (JObj 7), ClientEnd, ConnectionAck Publish example_ctx], Returns))"
proof -
  have h1: "0 < error_listeners (on_error (connect Bridge))" by (simp add: on_error_def)
  have h2: "truthy (JObj 7)" by simp
  have h3: "Publish \<noteq> Connect" by simp
  show ?thesis
    using h1 h2 h3 dispatch_error_handling [OF h1 h2 h3, of example_ctx] by blast
qed

text \<open>
  Claim C5 as it is stated fails. On a bridge that was constructed and connected, with no
  listener for its \<^verbatim>\<open>error\<close> event, the emission throws: the completion callback of a
  \<^verbatim>\<open>publish\<close> that receives an error emits the event and makes no other call.
\<close>

theorem dispatch_error_without_listener:
  "done_fn (connect Bridge) Publish example_ctx (JObj 7) = ([EmitError (JObj 7)], Throws) \<and>
   snd (hd (dispatch (connect Bridge) Publish example_ctx)) (JObj 7) =
     ([EmitError (JObj 7)], Throws)"
  by (simp add: dispatch_def done_fn_def emit_error_def bridge_error_def connect_def Bridge_def)

text \<open>
  Claim C6. When the callback of \<^verbatim>\<open>connection.ack\<close> receives an error, the bridge calls
  \<^verbatim>\<open>connection.close()\<close> once and emits one \<^verbatim>\<open>error\<close> event with that error, and does
  nothing else.
\<close>

theorem ack_error_handling:
  "truthy err \<Longrightarrow> ack_callback err = [ConnectionClose, EmitError err]"
  by (simp add: ack_callback_def bridge_error_def)

theorem ack_error_handling_witness:
  "truthy (JStr ''EPIPE'') \<and>
   ack_callback (JStr ''EPIPE'') = [ConnectionClose, EmitError (JStr ''EPIPE'')]"
  using ack_error_handling [of "JStr ''EPIPE''"] by simp

section \<open>Messages from the client\<close>

text \<open>
  Claim C9. After \<^verbatim>\<open>connect\<close> on a new bridge, a \<^verbatim>\<open>message\<close> event of the client with
  \<open>(t, m, opts)\<close> makes the bridge call \<^verbatim>\<open>connection.publish\<close> exactly once, with the
  same three values, whatever hooks were registered before or after \<^verbatim>\<open>connect\<close>.
\<close>

theorem message_forwarded_once:
  "client_message (register (connect (register Bridge regs)) regs') t m opts =
     [ConnectionPublish t m opts]"
  by (simp add: client_message_def forwarders_register connect_def Bridge_def on_message_def)

theorem message_forwarded_once_witness:
  "client_message
     (register (connect (register Bridge [(Publish, deny_hook)])) [(Connect, twice_hook)])
     (JStr ''t1'') (JStr ''hello'') (JObj 0) =
     [ConnectionPublish (JStr ''t1'') (JStr ''hello'') (JObj 0)]"
  using message_forwarded_once
    [of "[(Publish, deny_hook)]" "[(Connect, twice_hook)]" "JStr ''t1''" "JStr ''hello''" "JObj 0"]
  by simp

section \<open>An action without hooks\<close>

text \<open>
  Claim C7. When the action has no hooks (no list, or an empty one), the call of
  \<^verbatim>\<open>trigger\<close> returns without having invoked the completion callback, which is queued; the
  next turn of the event loop invokes it, with no error; later turns add nothing.
\<close>

theorem no_hooks_completes_next_turn:
  "hooks b action = None \<or> hooks b action = Some [] \<Longrightarrow>
   trace (trigger b action c cb 0) = [] \<and>
   queue (trigger b action c cb 0) = [RunCallback] \<and>
   trace (trigger b action c cb (Suc n)) =
     Tick # Callback Undefined # map Call (snd (cb Undefined c))"
  by (auto simp add: trigger_def exec_idle)

theorem no_hooks_completes_next_turn_witness:
  "(hooks (connect Bridge) Publish = None \<or> hooks (connect Bridge) Publish = Some []) \<and>
   trace (trigger (connect Bridge) Publish example_ctx (trigger_callback (connect Bridge) Publish) 0) = [] \<and>
   queue (trigger (connect Bridge) Publish example_ctx (trigger_callback (connect Bridge) Publish) 0)
     = [RunCallback] \<and>
   trace (trigger (connect Bridge) Publish example_ctx (trigger_callback (connect Bridge) Publish) (Suc 3)) =
     [Tick, Callback Undefined, Call (ClientPublish (JStr ''t1'') (JStr ''m1'') (JObj 0))]"
  using no_hooks_completes_next_turn
    [of "connect Bridge" Publish example_ctx "trigger_callback (connect Bridge) Publish" 3]
  by (simp add: connect_def Bridge_def actions_def trigger_callback_def dispatch_def
      example_ctx_def Let_def)

section \<open>The connect action\<close>

text \<open>
  Claim C2. For \<^verbatim>\<open>connect\<close> the completion callback calls \<^verbatim>\<open>done()\<close> at once,
  whatever the error and the context are: the only call is \<^verbatim>\<open>connection.ack\<close> with the
  action and the context. Over a whole run of the listener, with any hooks and for any
  number of turns of the event loop, every call the bridge makes is such an
  acknowledgement, one for each completion of the pipeline; nothing is called on the client.
\<close>

theorem connect_only_acknowledges:
  "trigger_callback b Connect err c =
     (c\<lparr>error := err\<rparr>, [ConnectionAck Connect (c\<lparr>error := err\<rparr>)]) \<and>
   list_all (is_ack_of Connect) (calls (trace (on_action b Connect c0 n))) \<and>
   length (calls (trace (on_action b Connect c0 n))) =
     length (filter is_callback (trace (on_action b Connect c0 n)))"
proof -
  have cb: "trigger_callback b Connect e x =
     (x\<lparr>error := e\<rparr>, [ConnectionAck Connect (x\<lparr>error := e\<rparr>)])" for e x
    by (simp add: trigger_callback_def done_fn_def Let_def)
  have "list_all (is_ack_of Connect)
          (calls (trace (trigger b Connect c0 (trigger_callback b Connect) n))) \<and>
        length (calls (trace (trigger b Connect c0 (trigger_callback b Connect) n))) =
        length (filter is_callback (trace (trigger b Connect c0 (trigger_callback b Connect) n)))"
    by (rule trigger_trace_invariant
          [where P = "\<lambda>tr. list_all (is_ack_of Connect) (calls tr) \<and>
                          length (calls tr) = length (filter is_callback tr)"
             and cb = "trigger_callback b Connect"])
       (simp_all add: cb)
  then show ?thesis using cb by (simp add: on_action_def)
qed

theorem connect_only_acknowledges_witness:
  "trigger_callback (before (connect Bridge) Connect deny_hook) Connect (JObj 1) example_ctx =
     (example_ctx\<lparr>error := JObj 1\<rparr>, [ConnectionAck Connect (example_ctx\<lparr>error := JObj 1\<rparr>)]) \<and>
   list_all (is_ack_of Connect)
     (calls (trace (on_action (before (connect Bridge) Connect deny_hook) Connect example_ctx 1))) \<and>
   length (calls (trace (on_action (before (connect Bridge) Connect deny_hook) Connect example_ctx 1))) =
     length (filter is_callback
       (trace (on_action (before (connect Bridge) Connect deny_hook) Connect example_ctx 1)))"
  by (rule connect_only_acknowledges)

section \<open>A chain of hooks\<close>

text \<open>
  Claim C4, as amended. Let the action have at least one hook. At any moment of a run, the
  hooks invoked so far are the hooks 0, 1, ... of the action's list, in the order of their
  registration, none left out and none twice; and every call of \<^verbatim>\<open>next\<close> with an error
  was followed at once by the completion callback with that error, not by a hook. When no
  hook calls \<^verbatim>\<open>next\<close> more than once, nothing follows the completion: the hooks after the
  one that gave the error are never invoked, and the completion callback is invoked at most
  once. When every hook that is reached calls \<^verbatim>\<open>next\<close> exactly once, as its last step,
  the run is the one of the sequential iterator: every hook is run on the shared context as
  the hook before it left it, the run completes with the first error given, or without an
  error after the last hook, and the completion callback receives that context.
\<close>

theorem hooks_run_in_order:
  assumes "hooks b action = Some hs" and "hs \<noteq> []"
  shows "hook_indices (trace (trigger b action c cb n)) =
           [0..<Suc (cur (trigger b action c cb n))] \<and>
         cur (trigger b action c cb n) < length hs \<and>
         errors_complete (trace (trigger b action c cb n)) \<and>
         ((\<forall>h\<in>set hs. \<forall>c'. calls_next (h c') \<le> 1) \<longrightarrow>
          (\<exists>fin. spec_run (length hs) (pipeline (trace (trigger b action c cb n)))
                   (cur (trigger b action c cb n)) fin) \<and>
          length (filter is_callback (trace (trigger b action c cb n))) \<le> 1) \<and>
         (\<forall>tr cf d. spec_pipeline cb 0 hs c = Some (tr, cf, d) \<and> d \<le> n \<longrightarrow>
            trace (trigger b action c cb n) = HookCall 0 # tr \<and>
            cx (trigger b action c cb n) = cf \<and>
            queue (trigger b action c cb n) = [])"
proof -
  obtain h hs' where hs: "hs = h # hs'" using assms(2) by (cases hs) auto
  let ?s = "\<lparr>cx = c, cur = 0, queue = [], trace = [HookCall 0]\<rparr>"
  have t: "trigger b action c cb n = exec n hs cb [h c] ?s"
    using assms(1) hs by (simp add: trigger_def)
  have "cur (exec n hs cb [h c] ?s) < length hs \<and>
        hook_indices (trace (exec n hs cb [h c] ?s)) = [0..<Suc (cur (exec n hs cb [h c] ?s))] \<and>
        errors_complete (trace (exec n hs cb [h c] ?s))"
    by (rule exec_order) (use assms(2) in simp_all)
  then have always:
    "hook_indices (trace (trigger b action c cb n)) = [0..<Suc (cur (trigger b action c cb n))]"
    "cur (trigger b action c cb n) < length hs"
    "errors_complete (trace (trigger b action c cb n))"
    by (simp_all add: t)
  have contract:
    "(\<exists>fin. spec_run (length hs) (pipeline (trace (trigger b action c cb n)))
              (cur (trigger b action c cb n)) fin) \<and>
     length (filter is_callback (trace (trigger b action c cb n))) \<le> 1"
    if once: "\<forall>h\<in>set hs. \<forall>c'. calls_next (h c') \<le> 1"
  proof -
    have "\<exists>fin. spec_run (length hs) (pipeline (trace (exec n hs cb [h c] ?s)))
                 (cur (exec n hs cb [h c] ?s)) fin"
    proof (rule exec_spec_run [OF once, where fin = False])
      show "RunCallback \<notin> set (queue ?s)" by simp
      show "spec_run (length hs) (pipeline (trace ?s)) (cur ?s) False"
        using spec_run.first [of "length hs"] assms(2) by simp
      show "pending [h c] (queue ?s) \<le> (if False then 0 else 1)"
        using once hs by (simp add: pending_def)
    qed
    then obtain fin where
      run: "spec_run (length hs) (pipeline (trace (trigger b action c cb n)))
              (cur (trigger b action c cb n)) fin"
      by (auto simp add: t)
    have "length (filter is_callback (pipeline (trace (trigger b action c cb n)))) \<le> 1"
      using spec_run_callbacks [OF run] by simp
    then show ?thesis using run by (auto simp add: filter_callback_pipeline)
  qed
  have iterator:
    "trace (trigger b action c cb n) = HookCall 0 # tr \<and>
     cx (trigger b action c cb n) = cf \<and> queue (trigger b action c cb n) = []"
    if spec: "spec_pipeline cb 0 hs c = Some (tr, cf, d) \<and> d \<le> n" for tr cf d
  proof -
    have "trace (exec n hs cb [h c] ?s) = trace ?s @ tr \<and>
          cx (exec n hs cb [h c] ?s) = cf \<and> queue (exec n hs cb [h c] ?s) = []"
    proof (rule exec_chain [where pre = "[]" and rest = hs' and d = d])
      show "spec_pipeline cb (length []) (h # hs') c = Some (tr, cf, d)"
        using spec hs by simp
      show "hs = [] @ h # hs'" using hs by simp
      show "d \<le> n" using spec by simp
    qed simp_all
    then show ?thesis by (simp add: t)
  qed
  show ?thesis using always contract iterator by blast
qed

theorem hooks_run_in_order_witness:
  "hooks chain_bridge Publish = Some [reject_hook, deny_hook, allow_hook] \<and>
   [reject_hook, deny_hook, allow_hook] \<noteq> [] \<and>
   hook_indices (trace (trigger chain_bridge Publish example_ctx
                          (trigger_callback chain_bridge Publish) 2)) =
     [0..<Suc (cur (trigger chain_bridge Publish example_ctx
                      (trigger_callback chain_bridge Publish) 2))] \<and>
   cur (trigger chain_bridge Publish example_ctx (trigger_callback chain_bridge Publish) 2)
     < length [reject_hook, deny_hook, allow_hook] \<and>
   errors_complete (trace (trigger chain_bridge Publish example_ctx
                             (trigger_callback chain_bridge Publish) 2)) \<and>
   (\<forall>c'. calls_next (reject_hook c') \<le> 1) \<and>
   (\<forall>c'. calls_next (deny_hook c') \<le> 1) \<and>
   (\<forall>c'. calls_next (allow_hook c') \<le> 1) \<and>
   (\<exists>fin. spec_run (length [reject_hook, deny_hook, allow_hook])
      (pipeline (trace (trigger chain_bridge Publish example_ctx
                          (trigger_callback chain_bridge Publish) 2)))
      (cur (trigger chain_bridge Publish example_ctx
              (trigger_callback chain_bridge Publish) 2)) fin) \<and>
   length (filter is_callback
     (trace (trigger chain_bridge Publish example_ctx
               (trigger_callback chain_bridge Publish) 2))) \<le> 1 \<and>
   spec_pipeline (trigger_callback chain_bridge Publish) 0 [reject_hook, deny_hook, allow_hook]
       example_ctx =
     Some ([Tick, NextCall Undefined, HookCall 1, NextCall (JStr ''denied''),
            Callback (JStr ''denied''),
            Call (ConnectionOnError Publish
                    (example_ctx\<lparr>reject := JBool True, error := JStr ''denied''\<rparr>)
                    (JStr ''denied''))],
           example_ctx\<lparr>reject := JBool True, error := JStr ''denied''\<rparr>, 1) \<and>
   (1::nat) \<le> 2 \<and>
   trace (trigger chain_bridge Publish example_ctx (trigger_callback chain_bridge Publish) 2) =
     [HookCall 0, Tick, NextCall Undefined, HookCall 1, NextCall (JStr ''denied''),
      Callback (JStr ''denied''),
      Call (ConnectionOnError Publish
              (example_ctx\<lparr>reject := JBool True, error := JStr ''denied''\<rparr>)
              (JStr ''denied''))] \<and>
   cx (trigger chain_bridge Publish example_ctx (trigger_callback chain_bridge Publish) 2) =
     example_ctx\<lparr>reject := JBool True, error := JStr ''denied''\<rparr>"
proof -
  have h1: "hooks chain_bridge Publish = Some [reject_hook, deny_hook, allow_hook]"
    by (simp add: chain_bridge_def register_def before_def connect_def Bridge_def actions_def)
  have h2: "[reject_hook, deny_hook, allow_hook] \<noteq> []" by simp
  have h3: "\<forall>h\<in>set [reject_hook, deny_hook, allow_hook]. \<forall>c'. calls_next (h c') \<le> 1"
    by (simp add: reject_hook_def deny_hook_def allow_hook_def calls_next_def)
  have h4: "(\<forall>c'. calls_next (reject_hook c') \<le> 1) \<and>
     (\<forall>c'. calls_next (deny_hook c') \<le> 1) \<and> (\<forall>c'. calls_next (allow_hook c') \<le> 1)"
    using h3 by simp
  have h5: "spec_pipeline (trigger_callback chain_bridge Publish) 0
       [reject_hook, deny_hook, allow_hook] example_ctx =
     Some ([Tick, NextCall Undefined, HookCall 1, NextCall (JStr ''denied''),
            Callback (JStr ''denied''),
            Call (ConnectionOnError Publish
                    (example_ctx\<lparr>reject := JBool True, error := JStr ''denied''\<rparr>)
                    (JStr ''denied''))],
           example_ctx\<lparr>reject := JBool True, error := JStr ''denied''\<rparr>, 1)"
    by (simp add: reject_hook_def deny_hook_def allow_hook_def trigger_callback_def Let_def
        example_ctx_def)
  have h6: "(1::nat) \<le> 2" by simp
  note t = hooks_run_in_order
    [OF h1 h2, of example_ctx "trigger_callback chain_bridge Publish" 2]
  show ?thesis
    using h1 h2 h3 h4 h5 h6 t by auto
qed

text \<open>
  Claim C4 as it is stated fails. The first hook of a \<^verbatim>\<open>publish\<close> calls
  \<^verbatim>\<open>next('denied')\<close> and then \<^verbatim>\<open>next()\<close>: the run completes with the error, and after
  that the second call invokes the hook that remains, whose call of \<^verbatim>\<open>next\<close> completes
  the run again, now without an error, so that the message is published upstream.
\<close>

theorem error_then_next_invokes_later_hook:
  "trace (on_action relapse_bridge Publish example_ctx 0) =
     [HookCall 0, NextCall (JStr ''denied''), Callback (JStr ''denied''),
      Call (ConnectionOnError Publish (example_ctx\<lparr>error := JStr ''denied''\<rparr>)
              (JStr ''denied'')),
      NextCall Undefined, HookCall 1, NextCall Undefined, Callback Undefined,
      Call (ClientPublish (JStr ''t1'') (JStr ''m1'') (JObj 0))]"
  by (simp add: bridge_defs example_defs)

section \<open>Calling next more than once\<close>

text \<open>
  Claim C8, as amended. \<^verbatim>\<open>next\<close> is not single-use: the code keeps no record of a call
  of \<^verbatim>\<open>next\<close>, and every call takes effect, in any run: it is followed at once by the
  completion callback with the value given or by the invocation of a hook. When the only
  hook of an action calls \<^verbatim>\<open>next\<close> \<open>k\<close> times, the completion callback is invoked
  \<open>k\<close> times, once for each call.
\<close>

theorem next_is_not_single_use:
  "acts_on_next (trace (trigger b action c cb n)) \<and>
   (hooks b action = Some [h] \<and> h c = replicate k (Next e) \<longrightarrow>
    pipeline (trace (trigger b action c cb n)) =
      HookCall 0 # concat (replicate k [NextCall e, Callback e]) \<and>
    filter is_callback (trace (trigger b action c cb n)) = replicate k (Callback e))"
proof (intro conjI impI)
  show "acts_on_next (trace (trigger b action c cb n))"
    by (rule trigger_acts_on_next)
next
  assume a: "hooks b action = Some [h] \<and> h c = replicate k (Next e)"
  let ?s = "\<lparr>cx = c, cur = 0, queue = [], trace = [HookCall 0]\<rparr>"
  have "pipeline (trace (exec n [h] cb [replicate k (Next e)] ?s)) =
     pipeline (trace ?s) @ concat (replicate k [NextCall e, Callback e])"
    by (rule exec_replicate_next) simp_all
  then show 1: "pipeline (trace (trigger b action c cb n)) =
           HookCall 0 # concat (replicate k [NextCall e, Callback e])"
    using a by (simp add: trigger_def)
  have "filter is_callback (trace (trigger b action c cb n)) =
        filter is_callback (pipeline (trace (trigger b action c cb n)))"
    by (simp add: filter_callback_pipeline)
  also have "\<dots> = replicate k (Callback e)"
    by (simp add: 1 filter_callback_replicate)
  finally show "filter is_callback (trace (trigger b action c cb n)) = replicate k (Callback e)" .
qed

theorem next_is_not_single_use_witness:
  "acts_on_next (trace (trigger (before (connect Bridge) Publish twice_hook) Publish example_ctx
                          (trigger_callback Bridge Publish) 0)) \<and>
   hooks (before (connect Bridge) Publish twice_hook) Publish = Some [twice_hook] \<and>
   twice_hook example_ctx = replicate (Suc (Suc 0)) (Next Undefined) \<and>
   pipeline (trace (trigger (before (connect Bridge) Publish twice_hook) Publish example_ctx
                      (trigger_callback Bridge Publish) 0)) =
     HookCall 0 # concat (replicate (Suc (Suc 0)) [NextCall Undefined, Callback Undefined]) \<and>
   filter is_callback (trace (trigger (before (connect Bridge) Publish twice_hook) Publish
                                example_ctx (trigger_callback Bridge Publish) 0)) =
     replicate (Suc (Suc 0)) (Callback Undefined)"
proof -
  have h1: "hooks (before (connect Bridge) Publish twice_hook) Publish = Some [twice_hook]"
    by (simp add: before_def connect_def Bridge_def actions_def)
  have h2: "twice_hook example_ctx = replicate (Suc (Suc 0)) (Next Undefined)"
    by (simp add: twice_hook_def)
  show ?thesis
    using h1 h2
      next_is_not_single_use [of "before (connect Bridge) Publish twice_hook" Publish
        example_ctx "trigger_callback Bridge Publish" 0 twice_hook "Suc (Suc 0)" Undefined]
    by blast
qed

text \<open>
  Claim C8 as it is stated fails. A single hook that calls \<^verbatim>\<open>next()\<close> twice has the
  completion callback invoked twice; and with two more hooks registered that never call
  \<^verbatim>\<open>next\<close>, its second call advances the chain again, to the third hook.
\<close>

theorem next_twice_takes_effect_twice:
  "filter is_callback
     (trace (on_action (before (connect Bridge) Publish twice_hook) Publish example_ctx 0)) =
     [Callback Undefined, Callback Undefined] \<and>
   pipeline (trace (on_action twice_bridge Publish example_ctx 0)) =
     [HookCall 0, NextCall Undefined, HookCall 1, NextCall Undefined, HookCall 2]"
  by (simp add: bridge_defs example_defs)

section \<open>Synchronous completion\<close>



end
